theory Spec2Isabelle
  imports Main "HOL-Library.Multiset" "HOL-Library.Sublist"
begin

section \<open>Data model\<close>

text \<open>
  A transaction is the dictionary \<^verbatim>\<open>{'sender': s, 'receiver': r, 'amount': a}\<close> that
  \<^verbatim>\<open>add_transaction\<close> builds; Python compares two of them field by field, as HOL
  compares two records.
\<close>

record tx =
  sender :: string
  receiver :: string
  amount :: int

text \<open>
  A block is the dictionary built by \<^verbatim>\<open>create_block\<close>. The key \<^verbatim>\<open>'proof'\<close> is
  the field \<open>nonce\<close> here (the word proof is reserved in Isabelle); the spec calls it
  nonce as well.
\<close>

record block =
  index :: int
  timestamp :: string
  nonce :: int
  previous_hash :: string
  merkle_root :: string
  transactions :: "tx list"
  block_hash :: string

text \<open>
  The attributes of class \<^verbatim>\<open>Blockchain\<close>: \<^verbatim>\<open>self.chain\<close>, \<^verbatim>\<open>self.transactions\<close>
  (the mempool; named \<open>mempool\<close> because a block has a field \<open>transactions\<close> too) and
  \<^verbatim>\<open>self.nodes\<close>.
\<close>

record blockchain =
  chain :: "block list"
  mempool :: "tx list"
  nodes :: "string set"

text \<open>
  Two library functions are parameters of the whole development, so that every theorem
  holds for whatever they compute:
  \<^item> \<open>H\<close> is \<^verbatim>\<open>hashlib.sha256(s.encode()).hexdigest()\<close>;
  \<^item> \<open>J\<close> is \<^verbatim>\<open>json.dumps(tx, sort_keys=True)\<close> on one transaction.
\<close>

type_synonym digest = "string \<Rightarrow> string"
type_synonym dumper = "tx \<Rightarrow> string"

section \<open>Strings\<close>

text \<open>Python's \<^verbatim>\<open>str\<close> on an integer: decimal digits, a minus sign when negative.\<close>

definition digit_char :: "nat \<Rightarrow> char" where
  "digit_char d = ''0123456789'' ! d"

function str_nat :: "nat \<Rightarrow> string" where
  "str_nat n = (if n < 10 then [digit_char n] else str_nat (n div 10) @ [digit_char (n mod 10)])"
  by pat_completeness auto
termination
  by (relation "measure (\<lambda>n. n)") auto

declare str_nat.simps [simp del]

definition str_int :: "int \<Rightarrow> string" where
  "str_int i = (if i < 0 then CHR ''-'' # str_nat (nat (- i)) else str_nat (nat i))"

text \<open>\<^verbatim>\<open>sep.join(items)\<close>.\<close>

fun join :: "string \<Rightarrow> string list \<Rightarrow> string" where
  "join sep [] = []"
| "join sep [x] = x"
| "join sep (x # y # ys) = x @ sep @ join sep (y # ys)"

text \<open>
  \<^verbatim>\<open>json.dumps(transactions, sort_keys=True)\<close> on a list of transactions: the items'
  own serializations, separated by a comma and a space, in brackets.
\<close>

definition dumps_list :: "dumper \<Rightarrow> tx list \<Rightarrow> string" where
  "dumps_list J txs = ''['' @ join '', '' (map J txs) @ '']''"

section \<open>Merkle root\<close>

text \<open>\<^verbatim>\<open>range(0, n, 2)\<close>: the even numbers below \<open>n\<close>.\<close>

definition range2 :: "nat \<Rightarrow> nat list" where
  "range2 n = map (\<lambda>k. 2 * k) [0..<(n + 1) div 2]"

text \<open>
  The body of the while loop of \<^verbatim>\<open>get_merkle_root\<close>: \<open>pad_odd\<close> is the
  \<^verbatim>\<open>append(temp_transactions[-1])\<close> under the odd-length test, \<open>new_level\<close> the for loop
  that hashes the entries at \<open>i\<close> and \<open>i + 1\<close>.
\<close>

definition pad_odd :: "string list \<Rightarrow> string list" where
  "pad_odd temp = (if length temp mod 2 \<noteq> 0 then temp @ [last temp] else temp)"

definition new_level :: "digest \<Rightarrow> string list \<Rightarrow> string list" where
  "new_level H temp = map (\<lambda>i. H (temp ! i @ temp ! (i + 1))) (range2 (length temp))"

function merkle_loop :: "digest \<Rightarrow> string list \<Rightarrow> string list" where
  "merkle_loop H temp =
     (if length temp > 1 then merkle_loop H (new_level H (pad_odd temp)) else temp)"
  by pat_completeness auto
termination
proof (relation "measure (\<lambda>(H, temp). length temp)")
  show "wf (measure (\<lambda>(H, temp). length temp))" by simp
next
  fix H :: digest and temp :: "string list"
  assume long: "1 < length temp"
  have "length (new_level H (pad_odd temp)) = (length temp + 1) div 2"
    by (simp add: new_level_def pad_odd_def range2_def) presburger
  with long show "((H, new_level H (pad_odd temp)), (H, temp)) \<in> measure (\<lambda>(H, temp). length temp)"
    by simp
qed

declare merkle_loop.simps [simp del]

definition get_merkle_root :: "digest \<Rightarrow> dumper \<Rightarrow> tx list \<Rightarrow> string" where
  "get_merkle_root H J txs =
     (if txs = [] then ''0'' else hd (merkle_loop H (map J txs)))"

text \<open>
  The Merkle commitment in the words of the specification: a level with an odd count has
  its last value duplicated, adjacent values are concatenated and hashed, and this is
  repeated while more than one value remains.
\<close>

fun hash_pairs :: "digest \<Rightarrow> string list \<Rightarrow> string list" where
  "hash_pairs H (a # b # rest) = H (a @ b) # hash_pairs H rest"
| "hash_pairs H [a] = [H (a @ a)]"
| "hash_pairs H [] = []"

function spec_levels :: "digest \<Rightarrow> string list \<Rightarrow> string list" where
  "spec_levels H level =
     (if length level > 1 then spec_levels H (hash_pairs H level) else level)"
  by pat_completeness auto
termination
proof (relation "measure (\<lambda>(H, level). length level)")
  show "wf (measure (\<lambda>(H, level). length level))" by simp
next
  fix H :: digest and level :: "string list"
  assume "1 < length level"
  moreover have "length (hash_pairs H xs) = (length xs + 1) div 2" for xs
    by (induction H xs rule: hash_pairs.induct) auto
  ultimately show "((H, hash_pairs H level), (H, level)) \<in> measure (\<lambda>(H, level). length level)"
    by simp
qed

declare spec_levels.simps [simp del]

section \<open>Proof of work and block hash\<close>

text \<open>
  The search loop of \<^verbatim>\<open>proof_of_work\<close>. It has no bound, so it is a partial function:
  \<open>None\<close> stands for a search that never ends.
\<close>

partial_function (option) pow_loop ::
  "digest \<Rightarrow> int \<Rightarrow> string \<Rightarrow> string \<Rightarrow> string \<Rightarrow> string \<Rightarrow> nat \<Rightarrow> nat option" where
  "pow_loop H block_index ts prev_hash root tx_data new_proof =
     (if take 3 (H (str_int (int new_proof) @ str_int block_index @ ts @ prev_hash @ root @ tx_data))
         = ''000''
      then Some new_proof
      else pow_loop H block_index ts prev_hash root tx_data (new_proof + 1))"

definition proof_of_work ::
  "digest \<Rightarrow> dumper \<Rightarrow> int \<Rightarrow> string \<Rightarrow> string \<Rightarrow> string \<Rightarrow> tx list \<Rightarrow> nat option" where
  "proof_of_work H J block_index ts prev_hash root txs =
     pow_loop H block_index ts prev_hash root (dumps_list J txs) 0"

definition compute_block_hash :: "digest \<Rightarrow> dumper \<Rightarrow> block \<Rightarrow> string" where
  "compute_block_hash H J b =
     H (str_int (nonce b) @ str_int (index b) @ timestamp b @ previous_hash b @ merkle_root b
        @ dumps_list J (transactions b))"

section \<open>Chain validation\<close>

function valid_loop :: "digest \<Rightarrow> dumper \<Rightarrow> block list \<Rightarrow> block \<Rightarrow> nat \<Rightarrow> bool" where
  "valid_loop H J chn previous_block block_index =
     (if block_index < length chn then
        (if previous_hash (chn ! block_index) \<noteq> block_hash previous_block then False
         else if get_merkle_root H J (transactions (chn ! block_index))
                 \<noteq> merkle_root (chn ! block_index) then False
         else if take 3 (compute_block_hash H J (chn ! block_index)) \<noteq> ''000'' then False
         else if block_hash (chn ! block_index) \<noteq> compute_block_hash H J (chn ! block_index)
              then False
         else valid_loop H J chn (chn ! block_index) (block_index + 1))
      else True)"
  by pat_completeness auto
termination
  by (relation "measure (\<lambda>(H, J, chn, previous_block, block_index). length chn - block_index)")
     auto

declare valid_loop.simps [simp del]

definition is_chain_valid :: "digest \<Rightarrow> dumper \<Rightarrow> block list \<Rightarrow> bool" where
  "is_chain_valid H J chn =
     (if length chn = 0 then True
      else if previous_hash (chn ! 0) \<noteq> ''0'' then False
      else if get_merkle_root H J (transactions (chn ! 0)) \<noteq> merkle_root (chn ! 0) then False
      else if take 3 (compute_block_hash H J (chn ! 0)) \<noteq> ''000'' then False
      else if block_hash (chn ! 0) \<noteq> compute_block_hash H J (chn ! 0) then False
      else valid_loop H J chn (chn ! 0) 1)"

section \<open>The node: mempool, block creation, mining\<close>

definition get_previous_block :: "blockchain \<Rightarrow> block option" where
  "get_previous_block bc = (if length (chain bc) = 0 then None else Some (last (chain bc)))"

text \<open>
  \<^verbatim>\<open>add_transaction\<close> (\<^verbatim>\<open>create_transaction\<close> in blockchain.py, with the same body):
  the value returned and the ledger after the call.
\<close>

definition add_transaction :: "string \<Rightarrow> string \<Rightarrow> int \<Rightarrow> blockchain \<Rightarrow> int \<times> blockchain" where
  "add_transaction s r a bc =
     (let bc' = bc\<lparr>mempool := mempool bc @ [\<lparr>sender = s, receiver = r, amount = a\<rparr>]\<rparr>
      in case get_previous_block bc' of
           None \<Rightarrow> (1, bc')
         | Some previous_block \<Rightarrow> (index previous_block + 1, bc'))"

text \<open>
  \<^verbatim>\<open>add_node\<close> stores \<^verbatim>\<open>urlparse(address).netloc\<close>; the parsed network location is the
  argument here.
\<close>

definition add_node :: "string \<Rightarrow> blockchain \<Rightarrow> blockchain" where
  "add_node netloc bc = bc\<lparr>nodes := insert netloc (nodes bc)\<rparr>"

text \<open>
  Python's \<^verbatim>\<open>list.remove(x)\<close> deletes the first element equal to \<open>x\<close>. The source
  calls it under the guard \<^verbatim>\<open>if tx in self.transactions\<close>, so the empty case (a ValueError
  in Python) is never reached.
\<close>

fun list_remove :: "'a \<Rightarrow> 'a list \<Rightarrow> 'a list" where
  "list_remove x [] = []"
| "list_remove x (y # ys) = (if y = x then ys else y # list_remove x ys)"

text \<open>The loop \<^verbatim>\<open>for tx in transactions: if tx in self.transactions: self.transactions.remove(tx)\<close>.\<close>

fun remove_mined :: "tx list \<Rightarrow> tx list \<Rightarrow> tx list" where
  "remove_mined [] pool = pool"
| "remove_mined (t # ts) pool =
     remove_mined ts (if t \<in> set pool then list_remove t pool else pool)"

text \<open>\<^verbatim>\<open>create_block\<close> of hadcoin_node_5001.py: the block returned and the ledger after.\<close>

definition create_block ::
  "int \<Rightarrow> string \<Rightarrow> string \<Rightarrow> tx list \<Rightarrow> string \<Rightarrow> string \<Rightarrow> blockchain \<Rightarrow> block \<times> blockchain" where
  "create_block prf prev_hash root txs ts bh bc =
     (let blk = \<lparr>index = int (length (chain bc)) + 1, timestamp = ts, nonce = prf,
                   previous_hash = prev_hash, merkle_root = root, transactions = txs,
                   block_hash = bh\<rparr>
      in (blk, bc\<lparr>mempool := remove_mined txs (mempool bc), chain := chain bc @ [blk]\<rparr>))"

text \<open>\<^verbatim>\<open>create_block\<close> of blockchain.py: it leaves the mempool to its caller.\<close>

definition create_block_bc ::
  "int \<Rightarrow> string \<Rightarrow> string \<Rightarrow> tx list \<Rightarrow> string \<Rightarrow> string \<Rightarrow> blockchain \<Rightarrow> block \<times> blockchain" where
  "create_block_bc prf prev_hash root txs ts bh bc =
     (let blk = \<lparr>index = int (length (chain bc)) + 1, timestamp = ts, nonce = prf,
                   previous_hash = prev_hash, merkle_root = root, transactions = txs,
                   block_hash = bh\<rparr>
      in (blk, bc\<lparr>chain := chain bc @ [blk]\<rparr>))"

text \<open>
  What the \<^verbatim>\<open>/mine_block\<close> handler answers: status 400 with an error message, or status
  200 with the fields of the mined block.
\<close>

datatype response = Error400 | Mined block

text \<open>
  The handler \<^verbatim>\<open>mine_block\<close> of hadcoin_node_5001.py. \<open>now\<close> is
  \<^verbatim>\<open>str(datetime.datetime.now())\<close>, \<open>node_address\<close> the node's uuid. The result is \<open>None\<close>
  when the proof-of-work search never ends. The broadcast to the peers after the block is
  created changes nothing of this node and is left out.
\<close>

definition mine_block ::
  "digest \<Rightarrow> dumper \<Rightarrow> string \<Rightarrow> string \<Rightarrow> blockchain \<Rightarrow> (response \<times> blockchain) option" where
  "mine_block H J node_address now bc =
     (if length (mempool bc) < 1 then Some (Error400, bc)
      else
        (let transactions_to_mine = take 5 (mempool bc);
             bc1 = snd (add_transaction ''NETWORK'' node_address 1 bc);
             prev_hash = (case get_previous_block bc1 of
                            None \<Rightarrow> ''0''
                          | Some previous_block \<Rightarrow> block_hash previous_block);
             root = get_merkle_root H J transactions_to_mine;
             block_index = int (length (chain bc1)) + 1
         in case proof_of_work H J block_index now prev_hash root transactions_to_mine of
              None \<Rightarrow> None
            | Some prf \<Rightarrow>
                (let bh = H (str_int (int prf) @ str_int block_index @ now @ prev_hash @ root
                             @ dumps_list J transactions_to_mine)
                 in case create_block (int prf) prev_hash root transactions_to_mine now bh bc1 of
                      (blk, bc2) \<Rightarrow> Some (Mined blk, bc2))))"

text \<open>
  The handler \<^verbatim>\<open>mine_block\<close> of blockchain.py: it needs five pending transactions, takes
  them off the mempool itself and adds no reward.
\<close>

definition mine_block_bc ::
  "digest \<Rightarrow> dumper \<Rightarrow> string \<Rightarrow> blockchain \<Rightarrow> (response \<times> blockchain) option" where
  "mine_block_bc H J now bc =
     (if length (mempool bc) < 5 then Some (Error400, bc)
      else
        (let transactions_to_mine = take 5 (mempool bc);
             bc1 = bc\<lparr>mempool := drop 5 (mempool bc)\<rparr>;
             prev_hash = (case get_previous_block bc1 of
                            None \<Rightarrow> ''0''
                          | Some previous_block \<Rightarrow> block_hash previous_block);
             root = get_merkle_root H J transactions_to_mine;
             block_index = int (length (chain bc1)) + 1
         in case proof_of_work H J block_index now prev_hash root transactions_to_mine of
              None \<Rightarrow> None
            | Some prf \<Rightarrow>
                (let bh = H (str_int (int prf) @ str_int block_index @ now @ prev_hash @ root
                             @ dumps_list J transactions_to_mine)
                 in case create_block_bc (int prf) prev_hash root transactions_to_mine now bh bc1 of
                      (blk, bc2) \<Rightarrow> Some (Mined blk, bc2))))"

text \<open>
  The ledgers a node reaches from \<^verbatim>\<open>Blockchain()\<close> by submitting transactions,
  registering peers and mining, with either handler.
\<close>

inductive pipeline :: "digest \<Rightarrow> dumper \<Rightarrow> blockchain \<Rightarrow> bool" for H :: digest and J :: dumper where
  init: "pipeline H J \<lparr>chain = [], mempool = [], nodes = {}\<rparr>"
| submit: "pipeline H J bc \<Longrightarrow> pipeline H J (snd (add_transaction s r a bc))"
| connect: "pipeline H J bc \<Longrightarrow> pipeline H J (add_node netloc bc)"
| mine: "pipeline H J bc \<Longrightarrow> mine_block H J node_address now bc = Some (rsp, bc')
         \<Longrightarrow> pipeline H J bc'"
| mine_bc: "pipeline H J bc \<Longrightarrow> mine_block_bc H J now bc = Some (rsp, bc')
         \<Longrightarrow> pipeline H J bc'"

section \<open>Consensus\<close>

text \<open>
  What one peer answers to \<^verbatim>\<open>GET /get_chain\<close>: the request raises ConnectionError, or a
  response arrives with a status code and, in its JSON body, \<^verbatim>\<open>length\<close> and \<^verbatim>\<open>chain\<close>.
  \<^verbatim>\<open>replace_chain\<close> gets the answers in the order in which it iterates over
  \<^verbatim>\<open>self.nodes\<close>.
\<close>

datatype peer_reply = ConnectionError | Reply nat int "block list"

fun scan_peers ::
  "digest \<Rightarrow> dumper \<Rightarrow> peer_reply list \<Rightarrow> int \<Rightarrow> block list option \<Rightarrow> int \<times> block list option" where
  "scan_peers H J [] max_length longest_chain = (max_length, longest_chain)"
| "scan_peers H J (ConnectionError # rest) max_length longest_chain =
     scan_peers H J rest max_length longest_chain"
| "scan_peers H J (Reply status_code len chn # rest) max_length longest_chain =
     (if status_code = 200 then
        (if len > max_length \<and> is_chain_valid H J chn
         then scan_peers H J rest len (Some chn)
         else scan_peers H J rest max_length longest_chain)
      else scan_peers H J rest max_length longest_chain)"

text \<open>
  \<^verbatim>\<open>replace_chain\<close>: \<^verbatim>\<open>longest_chain\<close> starts as \<^verbatim>\<open>None\<close>, and the final test
  \<^verbatim>\<open>if longest_chain:\<close> is false for \<^verbatim>\<open>None\<close> and for the empty list.
\<close>

definition replace_chain :: "digest \<Rightarrow> dumper \<Rightarrow> peer_reply list \<Rightarrow> blockchain \<Rightarrow> bool \<times> blockchain" where
  "replace_chain H J replies bc =
     (case snd (scan_peers H J replies (int (length (chain bc))) None) of
        None \<Rightarrow> (False, bc)
      | Some longest_chain \<Rightarrow>
          if longest_chain \<noteq> [] then (True, bc\<lparr>chain := longest_chain\<rparr>) else (False, bc))"

text \<open>
  The resolution rule in the words of the specification: the winner starts as the local
  chain, and the local chain is replaced when the winner differs from it.
\<close>

fun spec_scan :: "digest \<Rightarrow> dumper \<Rightarrow> peer_reply list \<Rightarrow> int \<Rightarrow> block list \<Rightarrow> block list" where
  "spec_scan H J [] max_length winner = winner"
| "spec_scan H J (ConnectionError # rest) max_length winner = spec_scan H J rest max_length winner"
| "spec_scan H J (Reply status_code len chn # rest) max_length winner =
     (if status_code = 200 \<and> len > max_length \<and> is_chain_valid H J chn
      then spec_scan H J rest len chn
      else spec_scan H J rest max_length winner)"

definition spec_resolve :: "digest \<Rightarrow> dumper \<Rightarrow> peer_reply list \<Rightarrow> blockchain \<Rightarrow> bool \<times> blockchain" where
  "spec_resolve H J replies bc =
     (let winner = spec_scan H J replies (int (length (chain bc))) (chain bc)
      in if winner \<noteq> chain bc then (True, bc\<lparr>chain := winner\<rparr>) else (False, bc))"

section \<open>Single-field mutations of a block\<close>

text \<open>The string that \<open>compute_block_hash\<close> hashes.\<close>

definition block_preimage :: "dumper \<Rightarrow> block \<Rightarrow> string" where
  "block_preimage J b =
     str_int (nonce b) @ str_int (index b) @ timestamp b @ previous_hash b @ merkle_root b
     @ dumps_list J (transactions b)"

text \<open>
  The changes of one field of a block that the specification's tamper-evidence property
  speaks of, and the condition that the new value differs from the stored one.
\<close>

datatype mutation =
    SetTimestamp string
  | SetNonce int
  | SetPreviousHash string
  | SetMerkleRoot string
  | SetTransaction nat tx
  | SetBlockHash string

fun mutate :: "mutation \<Rightarrow> block \<Rightarrow> block" where
  "mutate (SetTimestamp v) b = b\<lparr>timestamp := v\<rparr>"
| "mutate (SetNonce v) b = b\<lparr>nonce := v\<rparr>"
| "mutate (SetPreviousHash v) b = b\<lparr>previous_hash := v\<rparr>"
| "mutate (SetMerkleRoot v) b = b\<lparr>merkle_root := v\<rparr>"
| "mutate (SetTransaction k t) b = b\<lparr>transactions := (transactions b)[k := t]\<rparr>"
| "mutate (SetBlockHash v) b = b\<lparr>block_hash := v\<rparr>"

fun alters :: "mutation \<Rightarrow> block \<Rightarrow> bool" where
  "alters (SetTimestamp v) b \<longleftrightarrow> v \<noteq> timestamp b"
| "alters (SetNonce v) b \<longleftrightarrow> v \<noteq> nonce b"
| "alters (SetPreviousHash v) b \<longleftrightarrow> v \<noteq> previous_hash b"
| "alters (SetMerkleRoot v) b \<longleftrightarrow> v \<noteq> merkle_root b"
| "alters (SetTransaction k t) b \<longleftrightarrow> k < length (transactions b) \<and> t \<noteq> transactions b ! k"
| "alters (SetBlockHash v) b \<longleftrightarrow> v \<noteq> block_hash b"

text \<open>Reading a decimal string back, to show that \<open>str_int\<close> is injective.\<close>

definition digit_val :: "char \<Rightarrow> nat" where
  "digit_val c = length (takeWhile (\<lambda>d. d \<noteq> c) ''0123456789'')"

definition str_val :: "string \<Rightarrow> nat" where
  "str_val s = foldl (\<lambda>a c. 10 * a + digit_val c) 0 s"

section \<open>Concrete inputs\<close>

text \<open>
  A small digest and serializer to run the definitions on: the digest starts with three
  zeros exactly when its input starts with the digit 2, so that the search of
  \<open>proof_of_work\<close> ends at nonce 2.
\<close>

definition demo_hash :: digest where
  "demo_hash s = (if take 1 s = ''2'' then ''000'' @ s else ''fff'' @ s)"

definition demo_dumps :: dumper where
  "demo_dumps t = sender t @ ''>'' @ receiver t @ '':'' @ str_int (amount t)"

definition tx_a :: tx where
  "tx_a = \<lparr>sender = ''A'', receiver = ''B'', amount = 5\<rparr>"

definition tx_b :: tx where
  "tx_b = \<lparr>sender = ''B'', receiver = ''C'', amount = 3\<rparr>"

definition empty_node :: blockchain where
  "empty_node = \<lparr>chain = [], mempool = [], nodes = {}\<rparr>"

definition tx_reward :: tx where
  "tx_reward = \<lparr>sender = ''NETWORK'', receiver = ''n1'', amount = 1\<rparr>"

text \<open>
  The two blocks that the node with address \<open>n1\<close> mines from the empty ledger: the first
  at time \<open>t1\<close> after \<open>tx_a\<close> was submitted, the second at time \<open>t2\<close> after \<open>tx_b\<close> was.
\<close>

definition demo_block1 :: block where
  "demo_block1 = \<lparr>index = 1, timestamp = ''t1'', nonce = 2, previous_hash = ''0'',
     merkle_root = ''A>B:5'', transactions = [tx_a],
     block_hash = ''00021t10A>B:5[A>B:5]''\<rparr>"

definition demo_block2 :: block where
  "demo_block2 = \<lparr>index = 2, timestamp = ''t2'', nonce = 2,
     previous_hash = ''00021t10A>B:5[A>B:5]'',
     merkle_root = ''fffNETWORK>n1:1B>C:3'', transactions = [tx_reward, tx_b],
     block_hash = ''00022t200021t10A>B:5[A>B:5]fffNETWORK>n1:1B>C:3[NETWORK>n1:1, B>C:3]''\<rparr>"

definition demo_chain :: "block list" where
  "demo_chain = [demo_block1, demo_block2]"

text \<open>
  A block that a peer mined with the index 7 in first position, and the ledger of a node
  that adopted the peer's one-block chain.
\<close>

definition demo_block7 :: block where
  "demo_block7 = \<lparr>index = 7, timestamp = ''t1'', nonce = 2, previous_hash = ''0'',
     merkle_root = ''A>B:5'', transactions = [tx_a],
     block_hash = ''00027t10A>B:5[A>B:5]''\<rparr>"

definition demo_node7 :: blockchain where
  "demo_node7 = \<lparr>chain = [demo_block7], mempool = [], nodes = {}\<rparr>"

text \<open>The ledger of that node after its first and after its second block.\<close>

definition demo_node1 :: blockchain where
  "demo_node1 = \<lparr>chain = [demo_block1], mempool = [tx_reward], nodes = {}\<rparr>"

definition demo_node2 :: blockchain where
  "demo_node2 = \<lparr>chain = demo_chain, mempool = [tx_reward], nodes = {}\<rparr>"

text \<open>A digest on which every two inputs collide.\<close>

definition zero_hash :: digest where
  "zero_hash s = ''000''"

section \<open>Auxiliary predicates\<close>

text \<open>The three checks \<open>is_chain_valid\<close> makes on every block, whatever its position.\<close>

definition block_ok :: "digest \<Rightarrow> dumper \<Rightarrow> block \<Rightarrow> bool" where
  "block_ok H J b \<longleftrightarrow>
     get_merkle_root H J (transactions b) = merkle_root b \<and>
     take 3 (compute_block_hash H J b) = ''000'' \<and>
     block_hash b = compute_block_hash H J b"

text \<open>The loop of \<open>is_chain_valid\<close> as a recursion over the blocks still to check.\<close>

fun linked :: "digest \<Rightarrow> dumper \<Rightarrow> block \<Rightarrow> block list \<Rightarrow> bool" where
  "linked H J p [] = True"
| "linked H J p (b # bs) = (previous_hash b = block_hash p \<and> block_ok H J b \<and> linked H J b bs)"

text \<open>The test of the search loop of \<open>proof_of_work\<close> at one nonce.\<close>

definition pow_ok :: "digest \<Rightarrow> int \<Rightarrow> string \<Rightarrow> string \<Rightarrow> string \<Rightarrow> string \<Rightarrow> nat \<Rightarrow> bool" where
  "pow_ok H block_index ts prev_hash root tx_data n \<longleftrightarrow>
     take 3 (H (str_int (int n) @ str_int block_index @ ts @ prev_hash @ root @ tx_data)) = ''000''"

text \<open>
  The block that a mining handler appends to the chain \<open>c\<close> at time \<open>now\<close> for the batch
  \<open>txs\<close> once the search has returned \<open>prf\<close>, and the statement that the search did so.
\<close>

definition genesis_or_last :: "block list \<Rightarrow> string" where
  "genesis_or_last c = (if c = [] then ''0'' else block_hash (last c))"

definition next_block :: "digest \<Rightarrow> dumper \<Rightarrow> block list \<Rightarrow> string \<Rightarrow> tx list \<Rightarrow> nat \<Rightarrow> block" where
  "next_block H J c now txs prf =
     \<lparr>index = int (length c) + 1, timestamp = now, nonce = int prf,
      previous_hash = genesis_or_last c,
      merkle_root = get_merkle_root H J txs, transactions = txs,
      block_hash = H (str_int (int prf) @ str_int (int (length c) + 1) @ now
                      @ genesis_or_last c @ get_merkle_root H J txs @ dumps_list J txs)\<rparr>"

definition mined_from :: "digest \<Rightarrow> dumper \<Rightarrow> block list \<Rightarrow> string \<Rightarrow> tx list \<Rightarrow> nat \<Rightarrow> bool" where
  "mined_from H J c now txs prf \<longleftrightarrow>
     proof_of_work H J (int (length c) + 1) now (genesis_or_last c)
       (get_merkle_root H J txs) txs = Some prf"

section \<open>Unfolding the concrete inputs\<close>

lemmas demo_defs = demo_chain_def demo_block1_def demo_block2_def tx_a_def tx_b_def tx_reward_def
  demo_hash_def demo_dumps_def demo_node1_def demo_node2_def empty_node_def
  demo_block7_def demo_node7_def
lemmas eval_defs = str_int_def str_nat.simps digit_char_def dumps_list_def

lemmas merkle_eval = get_merkle_root_def merkle_loop.simps new_level_def pad_odd_def range2_def
lemmas mine_eval = mine_block_def add_transaction_def get_previous_block_def create_block_def
  proof_of_work_def pow_loop.simps Let_def

section \<open>Validation of a chain\<close>

lemma is_chain_valid_Nil: "is_chain_valid H J [] = True"
  by (simp add: is_chain_valid_def)

lemma valid_loop_linked:
  "i \<le> length c \<Longrightarrow> valid_loop H J c p i = linked H J p (drop i c)"
proof (induction H J c p i rule: valid_loop.induct)
  case (1 H J chn previous_block block_index)
  show ?case
  proof (cases "block_index < length chn")
    case True
    then have d: "drop block_index chn = chn ! block_index # drop (block_index + 1) chn"
      by (simp add: Cons_nth_drop_Suc)
    show ?thesis
    proof (cases "previous_hash (chn ! block_index) = block_hash previous_block \<and>
                  block_ok H J (chn ! block_index)")
      case ok: True
      with True have "valid_loop H J chn previous_block block_index
                      = valid_loop H J chn (chn ! block_index) (block_index + 1)"
        by (subst valid_loop.simps) (simp add: block_ok_def)
      also have "\<dots> = linked H J (chn ! block_index) (drop (block_index + 1) chn)"
        using True ok by (intro "1.IH") (auto simp: block_ok_def)
      finally show ?thesis using ok d by simp
    next
      case bad: False
      with True have "\<not> valid_loop H J chn previous_block block_index"
        by (subst valid_loop.simps) (auto simp: block_ok_def)
      with bad d show ?thesis by auto
    qed
  next
    case False
    with "1.prems" show ?thesis by (subst valid_loop.simps) simp
  qed
qed

lemma is_chain_valid_Cons:
  "is_chain_valid H J (b # bs) \<longleftrightarrow> previous_hash b = ''0'' \<and> block_ok H J b \<and> linked H J b bs"
  by (auto simp: is_chain_valid_def block_ok_def valid_loop_linked)

lemma linked_snoc:
  "linked H J p (bs @ [b]) \<longleftrightarrow>
     linked H J p bs \<and> previous_hash b = block_hash (last (p # bs)) \<and> block_ok H J b"
  by (induction bs arbitrary: p) auto

lemma is_chain_valid_snoc:
  "is_chain_valid H J (c @ [b]) \<longleftrightarrow>
     is_chain_valid H J c \<and> block_ok H J b \<and>
     previous_hash b = (if c = [] then ''0'' else block_hash (last c))"
  by (cases c) (auto simp: is_chain_valid_Cons is_chain_valid_Nil linked_snoc)

lemma linked_nth:
  "linked H J p bs \<longleftrightarrow>
     (\<forall>k < length bs. block_ok H J (bs ! k) \<and>
        previous_hash (bs ! k) = block_hash ((p # bs) ! k))"
proof (induction bs arbitrary: p)
  case Nil
  then show ?case by simp
next
  case (Cons b bs)
  show ?case
    unfolding linked.simps Cons.IH
    by (auto simp: less_Suc_eq_0_disj)
qed

lemma is_chain_valid_nth:
  "is_chain_valid H J (b # bs) \<longleftrightarrow>
     previous_hash b = ''0'' \<and>
     (\<forall>i<length (b # bs). block_ok H J ((b # bs) ! i)) \<and>
     (\<forall>i. 1 \<le> i \<and> i < length (b # bs) \<longrightarrow>
          previous_hash ((b # bs) ! i) = block_hash ((b # bs) ! (i - 1)))"
proof -
  have blocks: "(\<forall>i<length (b # bs). block_ok H J ((b # bs) ! i)) \<longleftrightarrow>
      block_ok H J b \<and> (\<forall>k<length bs. block_ok H J (bs ! k))"
    by (auto simp: less_Suc_eq_0_disj)
  have links: "(\<forall>i. 1 \<le> i \<and> i < length (b # bs) \<longrightarrow>
          previous_hash ((b # bs) ! i) = block_hash ((b # bs) ! (i - 1))) \<longleftrightarrow>
      (\<forall>k<length bs. previous_hash (bs ! k) = block_hash ((b # bs) ! k))"
  proof
    assume l: "\<forall>i. 1 \<le> i \<and> i < length (b # bs) \<longrightarrow>
          previous_hash ((b # bs) ! i) = block_hash ((b # bs) ! (i - 1))"
    show "\<forall>k<length bs. previous_hash (bs ! k) = block_hash ((b # bs) ! k)"
    proof (intro allI impI)
      fix k assume "k < length bs"
      with l [rule_format, of "Suc k"] show "previous_hash (bs ! k) = block_hash ((b # bs) ! k)"
        by simp
    qed
  next
    assume r: "\<forall>k<length bs. previous_hash (bs ! k) = block_hash ((b # bs) ! k)"
    show "\<forall>i. 1 \<le> i \<and> i < length (b # bs) \<longrightarrow>
          previous_hash ((b # bs) ! i) = block_hash ((b # bs) ! (i - 1))"
    proof (intro allI impI)
      fix i assume "1 \<le> i \<and> i < length (b # bs)"
      then obtain k where "i = Suc k" "k < length bs"
        by (cases i) auto
      with r show "previous_hash ((b # bs) ! i) = block_hash ((b # bs) ! (i - 1))"
        by simp
    qed
  qed
  show ?thesis
    unfolding is_chain_valid_Cons linked_nth blocks links by blast
qed

text \<open>The concrete chains: which of them the validator accepts.\<close>

lemma demo_chain_ok: "is_chain_valid demo_hash demo_dumps demo_chain"
proof -
  have r1: "get_merkle_root demo_hash demo_dumps [tx_a] = ''A>B:5''"
    by (simp add: merkle_eval demo_defs eval_defs)
  have r2: "get_merkle_root demo_hash demo_dumps [tx_reward, tx_b] = ''fffNETWORK>n1:1B>C:3''"
    by (simp add: merkle_eval demo_defs eval_defs)
  have b1: "block_ok demo_hash demo_dumps demo_block1"
    unfolding block_ok_def compute_block_hash_def
    by (simp add: demo_block1_def r1) (simp add: demo_defs eval_defs)
  have b2: "block_ok demo_hash demo_dumps demo_block2"
    unfolding block_ok_def compute_block_hash_def
    by (simp add: demo_block2_def r2) (simp add: demo_defs eval_defs)
  show ?thesis
    unfolding demo_chain_def is_chain_valid_Cons
    by (simp add: b1 b2) (simp add: demo_block1_def demo_block2_def)
qed

lemma demo_block7_ok: "is_chain_valid demo_hash demo_dumps [demo_block7]"
proof -
  have r: "get_merkle_root demo_hash demo_dumps [tx_a] = ''A>B:5''"
    by (simp add: merkle_eval demo_defs eval_defs)
  have "block_ok demo_hash demo_dumps demo_block7"
    unfolding block_ok_def compute_block_hash_def
    by (simp add: demo_block7_def r) (simp add: demo_defs eval_defs)
  then show ?thesis
    by (simp add: is_chain_valid_Cons) (simp add: demo_block7_def)
qed

lemma demo_block2_alone: "\<not> is_chain_valid demo_hash demo_dumps [demo_block2]"
  by (simp add: is_chain_valid_Cons demo_block2_def)

text \<open>
  Claim C2. \<open>is_chain_valid\<close> accepts the empty chain. It accepts a non-empty chain exactly
  when the first block's \<open>previous_hash\<close> is the genesis sentinel \<open>''0''\<close>; for every block
  the Merkle root recomputed over its transactions is the stored one, and the hash
  re-derived from nonce, index, timestamp, previous hash, Merkle root and the serialized
  transactions starts with three zeros and is the stored \<open>block_hash\<close>; and every later
  block's \<open>previous_hash\<close> is the stored \<open>block_hash\<close> of the block before it.
\<close>

theorem is_chain_valid_iff:
  "is_chain_valid H J [] \<and>
   (chn \<noteq> [] \<longrightarrow>
     (is_chain_valid H J chn \<longleftrightarrow>
        previous_hash (chn ! 0) = ''0'' \<and>
        (\<forall>i<length chn.
            get_merkle_root H J (transactions (chn ! i)) = merkle_root (chn ! i) \<and>
            take 3 (H (str_int (nonce (chn ! i)) @ str_int (index (chn ! i)) @ timestamp (chn ! i)
                       @ previous_hash (chn ! i) @ merkle_root (chn ! i)
                       @ dumps_list J (transactions (chn ! i)))) = ''000'' \<and>
            block_hash (chn ! i) =
               H (str_int (nonce (chn ! i)) @ str_int (index (chn ! i)) @ timestamp (chn ! i)
                  @ previous_hash (chn ! i) @ merkle_root (chn ! i)
                  @ dumps_list J (transactions (chn ! i)))) \<and>
        (\<forall>i. 1 \<le> i \<and> i < length chn \<longrightarrow>
            previous_hash (chn ! i) = block_hash (chn ! (i - 1)))))"
proof (cases chn)
  case Nil
  then show ?thesis by (simp add: is_chain_valid_Nil)
next
  case (Cons b bs)
  have "is_chain_valid H J [] " by (simp add: is_chain_valid_Nil)
  moreover note is_chain_valid_nth [of H J b bs]
  ultimately show ?thesis
    unfolding Cons block_ok_def compute_block_hash_def by simp
qed

theorem is_chain_valid_iff_witness:
  "demo_chain \<noteq> [] \<and> is_chain_valid demo_hash demo_dumps demo_chain \<and>
   previous_hash (demo_chain ! 0) = ''0'' \<and>
   previous_hash (demo_chain ! 1) = block_hash (demo_chain ! 0)"
proof -
  have ne: "demo_chain \<noteq> []" by (simp add: demo_chain_def)
  from is_chain_valid_iff [of demo_hash demo_dumps demo_chain] ne demo_chain_ok
  have "previous_hash (demo_chain ! 0) = ''0''"
    and "\<forall>i. 1 \<le> i \<and> i < length demo_chain \<longrightarrow>
           previous_hash (demo_chain ! i) = block_hash (demo_chain ! (i - 1))"
    by blast+
  moreover have "(1::nat) \<le> 1 \<and> 1 < length demo_chain" by (simp add: demo_chain_def)
  ultimately have "previous_hash (demo_chain ! 0) = ''0''"
    and "previous_hash (demo_chain ! 1) = block_hash (demo_chain ! (1 - 1))"
    by blast+
  with ne demo_chain_ok show ?thesis by simp
qed

section \<open>The Merkle root refines the specification's commitment\<close>

lemma range2_Suc_Suc: "range2 (Suc (Suc n)) = 0 # map (\<lambda>i. i + 2) (range2 n)"
proof -
  have "[0..<Suc ((n + 1) div 2)] = 0 # map Suc [0..<(n + 1) div 2]"
    by (simp add: upt_conv_Cons map_Suc_upt del: upt_Suc)
  then show ?thesis
    by (simp add: range2_def comp_def del: upt_Suc)
qed

lemma new_level_Cons2: "new_level H (a # b # u) = H (a @ b) # new_level H u"
  by (simp add: new_level_def range2_Suc_Suc comp_def)

lemma pad_odd_Cons2: "pad_odd (a # b # u) = a # b # pad_odd u"
  by (cases u) (auto simp: pad_odd_def)

lemma new_level_pad_odd: "new_level H (pad_odd temp) = hash_pairs H temp"
proof (induction H temp rule: hash_pairs.induct)
  case (1 H a b rest)
  then show ?case by (simp add: pad_odd_Cons2 new_level_Cons2)
next
  case (2 H a)
  have "pad_odd [a] = [a, a]" by (simp add: pad_odd_def)
  then show ?case by (simp add: new_level_Cons2 new_level_def range2_def)
next
  case (3 H)
  then show ?case by (simp add: pad_odd_def new_level_def range2_def)
qed

lemma merkle_loop_spec_levels: "merkle_loop H temp = spec_levels H temp"
proof (induction H temp rule: spec_levels.induct)
  case (1 H level)
  show ?case
  proof (cases "length level > 1")
    case True
    then have "merkle_loop H level = merkle_loop H (hash_pairs H level)"
      by (subst merkle_loop.simps) (simp add: new_level_pad_odd)
    also have "\<dots> = spec_levels H (hash_pairs H level)"
      using True by (rule "1.IH")
    also have "\<dots> = spec_levels H level"
      using True by (subst (2) spec_levels.simps) simp
    finally show ?thesis .
  next
    case False
    then show ?thesis
      by (subst merkle_loop.simps, subst spec_levels.simps) simp
  qed
qed

lemma length_hash_pairs: "length (hash_pairs H xs) = (length xs + 1) div 2"
  by (induction H xs rule: hash_pairs.induct) auto

lemma length_spec_levels: "level \<noteq> [] \<Longrightarrow> length (spec_levels H level) = 1"
proof (induction H level rule: spec_levels.induct)
  case (1 H level)
  show ?case
  proof (cases "length level > 1")
    case True
    then have "hash_pairs H level \<noteq> []"
      using length_hash_pairs [of H level] by auto
    with True "1.IH" show ?thesis
      by (subst spec_levels.simps) simp
  next
    case False
    with "1.prems" have "length level = 1"
      by (cases level) auto
    then show ?thesis by (subst spec_levels.simps) simp
  qed
qed

lemma spec_levels_root:
  "txs \<noteq> [] \<Longrightarrow> spec_levels H (map J txs) = [get_merkle_root H J txs]"
proof -
  assume ne: "txs \<noteq> []"
  then have "length (spec_levels H (map J txs)) = 1"
    by (intro length_spec_levels) simp
  then obtain r where r: "spec_levels H (map J txs) = [r]"
    by (cases "spec_levels H (map J txs)") auto
  with ne show ?thesis
    by (simp add: get_merkle_root_def merkle_loop_spec_levels)
qed

lemma spec_levels_5:
  "spec_levels H [a, b, c, d, e] = [H (H (H (a @ b) @ H (c @ d)) @ H (H (e @ e) @ H (e @ e)))]"
  by (simp add: spec_levels.simps)

text \<open>
  Claim C3. \<open>get_merkle_root\<close> of the empty list is the sentinel \<open>''0''\<close>. For a non-empty
  list it is the one value left by the specification's procedure run on the serialized
  transactions: while more than one value remains, the last value is duplicated when the
  count is odd and the level is replaced by the digests of the concatenated adjacent pairs.
  The leaves are the serialized strings themselves (a single transaction's root is its
  serialization, unhashed); the duplication happens at every level (with five leaves the
  second level has three values and its last one is duplicated again); and equal lists
  give equal roots.
\<close>

theorem get_merkle_root_refines:
  "get_merkle_root H J [] = ''0'' \<and>
   (txs \<noteq> [] \<longrightarrow> spec_levels H (map J txs) = [get_merkle_root H J txs]) \<and>
   get_merkle_root H J [t] = J t \<and>
   get_merkle_root H J [a, b, c, d, e] =
     H (H (H (J a @ J b) @ H (J c @ J d)) @ H (H (J e @ J e) @ H (J e @ J e))) \<and>
   (txs = txs' \<longrightarrow> get_merkle_root H J txs = get_merkle_root H J txs')"
proof -
  have "get_merkle_root H J [] = ''0''"
    by (simp add: get_merkle_root_def)
  moreover have "spec_levels H (map J [t]) = [J t]"
    by (simp add: spec_levels.simps)
  then have "get_merkle_root H J [t] = J t"
    using spec_levels_root [of "[t]" H J] by simp
  moreover have "get_merkle_root H J [a, b, c, d, e] =
     H (H (H (J a @ J b) @ H (J c @ J d)) @ H (H (J e @ J e) @ H (J e @ J e)))"
    using spec_levels_root [of "[a, b, c, d, e]" H J] by (simp add: spec_levels_5)
  ultimately show ?thesis
    by (simp add: spec_levels_root)
qed

theorem get_merkle_root_refines_witness:
  "[tx_a, tx_b, tx_a] \<noteq> [] \<and>
   get_merkle_root demo_hash demo_dumps [tx_a, tx_b, tx_a] = ''ffffffA>B:5B>C:3fffA>B:5A>B:5''"
proof -
  have "spec_levels demo_hash (map demo_dumps [tx_a, tx_b, tx_a])
        = [''ffffffA>B:5B>C:3fffA>B:5A>B:5'']"
    by (simp add: spec_levels.simps demo_defs eval_defs)
  then show ?thesis
    using get_merkle_root_refines [of demo_hash demo_dumps "[tx_a, tx_b, tx_a]"] by simp
qed

section \<open>The proof-of-work search\<close>

lemma pow_loop_hit:
  "pow_ok H i ts p r d n \<Longrightarrow> pow_loop H i ts p r d n = Some n"
  by (subst pow_loop.simps) (simp add: pow_ok_def)

lemma pow_loop_miss:
  "\<not> pow_ok H i ts p r d n \<Longrightarrow> pow_loop H i ts p r d n = pow_loop H i ts p r d (n + 1)"
  by (subst pow_loop.simps) (simp add: pow_ok_def)

lemma pow_loop_least:
  assumes "pow_ok H i ts p r d m" and "\<forall>k. n \<le> k \<and> k < m \<longrightarrow> \<not> pow_ok H i ts p r d k" and "n \<le> m"
  shows "pow_loop H i ts p r d n = Some m"
  using assms
proof (induction "m - n" arbitrary: n)
  case 0
  then have "n = m" by simp
  with "0.prems" show ?case by (simp add: pow_loop_hit)
next
  case (Suc x)
  then have lt: "n < m" by simp
  with Suc.prems have "\<not> pow_ok H i ts p r d n" by simp
  then have "pow_loop H i ts p r d n = pow_loop H i ts p r d (n + 1)"
    by (rule pow_loop_miss)
  also have "\<dots> = Some m"
  proof (rule Suc.hyps(1))
    show "x = m - (n + 1)" using Suc.hyps(2) by simp
    show "pow_ok H i ts p r d m" by (rule Suc.prems(1))
    show "\<forall>k. n + 1 \<le> k \<and> k < m \<longrightarrow> \<not> pow_ok H i ts p r d k" using Suc.prems(2) by simp
    show "n + 1 \<le> m" using lt by simp
  qed
  finally show ?case .
qed

lemma pow_loop_terminates:
  assumes "pow_ok H i ts p r d n"
  shows "\<exists>m. pow_loop H i ts p r d 0 = Some m \<and> pow_ok H i ts p r d m \<and> m \<le> n \<and>
             (\<forall>k < m. \<not> pow_ok H i ts p r d k)"
proof -
  define m where "m = (LEAST k. pow_ok H i ts p r d k)"
  have ok: "pow_ok H i ts p r d m"
    unfolding m_def using assms by (rule LeastI)
  have le: "m \<le> n"
    unfolding m_def using assms by (rule Least_le)
  have least: "\<not> pow_ok H i ts p r d k" if "k < m" for k
    using that not_less_Least unfolding m_def by blast
  have "pow_loop H i ts p r d 0 = Some m"
    by (rule pow_loop_least) (use ok least in auto)
  with ok le least show ?thesis by blast
qed

lemma pow_loop_sound:
  assumes "pow_loop H i ts p r d n = Some m"
  shows "pow_ok H i ts p r d m \<and> n \<le> m"
proof (rule pow_loop.raw_induct
    [where P = "\<lambda>H i ts p r d n m. pow_ok H i ts p r d m \<and> n \<le> m", OF _ assms])
  fix loop :: "digest \<Rightarrow> int \<Rightarrow> string \<Rightarrow> string \<Rightarrow> string \<Rightarrow> string \<Rightarrow> nat \<Rightarrow> nat option"
    and H i ts p r d n m
  assume IH: "\<And>H i ts p r d n m. loop H i ts p r d n = Some m \<Longrightarrow> pow_ok H i ts p r d m \<and> n \<le> m"
    and eq: "(if take 3 (H (str_int (int n) @ str_int i @ ts @ p @ r @ d)) = ''000''
              then Some n else loop H i ts p r d (n + 1)) = Some m"
  show "pow_ok H i ts p r d m \<and> n \<le> m"
  proof (cases "pow_ok H i ts p r d n")
    case True
    with eq show ?thesis by (simp add: pow_ok_def)
  next
    case False
    with eq have "loop H i ts p r d (n + 1) = Some m" by (simp add: pow_ok_def)
    then have "pow_ok H i ts p r d m \<and> n + 1 \<le> m" by (rule IH)
    then show ?thesis by simp
  qed
qed

text \<open>
  Claim C4. Whenever some nonce makes the digest of nonce, index, timestamp, previous
  hash, Merkle root and serialized transactions start with \<open>''000''\<close>, \<open>proof_of_work\<close>
  terminates; the nonce it returns has such a digest, and no smaller non-negative nonce
  has one.
\<close>

theorem proof_of_work_least:
  assumes "take 3 (H (str_int (int n) @ str_int block_index @ ts @ prev_hash @ root
                      @ dumps_list J txs)) = ''000''"
  shows "\<exists>p. proof_of_work H J block_index ts prev_hash root txs = Some p \<and>
             take 3 (H (str_int (int p) @ str_int block_index @ ts @ prev_hash @ root
                        @ dumps_list J txs)) = ''000'' \<and>
             (\<forall>k<p. take 3 (H (str_int (int k) @ str_int block_index @ ts @ prev_hash @ root
                                @ dumps_list J txs)) \<noteq> ''000'') \<and>
             p \<le> n"
proof -
  from assms have "pow_ok H block_index ts prev_hash root (dumps_list J txs) n"
    by (simp add: pow_ok_def)
  from pow_loop_terminates [OF this] obtain m where
    "pow_loop H block_index ts prev_hash root (dumps_list J txs) 0 = Some m"
    "pow_ok H block_index ts prev_hash root (dumps_list J txs) m"
    "m \<le> n"
    "\<forall>k<m. \<not> pow_ok H block_index ts prev_hash root (dumps_list J txs) k"
    by blast
  then show ?thesis
    by (intro exI [of _ m]) (simp add: proof_of_work_def pow_ok_def)
qed

theorem proof_of_work_least_witness:
  "proof_of_work demo_hash demo_dumps 1 ''t1'' ''0'' ''A>B:5'' [tx_a] = Some 2"
proof -
  have hit: "take 3 (demo_hash (str_int (int 2) @ str_int 1 @ ''t1'' @ ''0'' @ ''A>B:5''
                      @ dumps_list demo_dumps [tx_a])) = ''000''"
    by (simp add: demo_defs eval_defs)
  from proof_of_work_least
    [where H = demo_hash and J = demo_dumps and n = 2 and block_index = 1 and ts = "''t1''"
       and prev_hash = "''0''" and root = "''A>B:5''" and txs = "[tx_a]", OF hit]
  obtain p where
    p: "proof_of_work demo_hash demo_dumps 1 ''t1'' ''0'' ''A>B:5'' [tx_a] = Some p"
    and ok: "take 3 (demo_hash (str_int (int p) @ str_int 1 @ ''t1'' @ ''0'' @ ''A>B:5''
                      @ dumps_list demo_dumps [tx_a])) = ''000''"
    and le: "p \<le> 2"
    by blast
  have "p \<noteq> 0"
  proof
    assume "p = 0"
    with ok have "take 3 (demo_hash (str_int (int 0) @ str_int 1 @ ''t1'' @ ''0'' @ ''A>B:5''
                      @ dumps_list demo_dumps [tx_a])) = ''000''" by simp
    then show False by (simp add: demo_defs eval_defs)
  qed
  moreover have "p \<noteq> 1"
  proof
    assume "p = 1"
    with ok have "take 3 (demo_hash (str_int (int 1) @ str_int 1 @ ''t1'' @ ''0'' @ ''A>B:5''
                      @ dumps_list demo_dumps [tx_a])) = ''000''" by simp
    then show False by (simp add: demo_defs eval_defs)
  qed
  ultimately have "p = 2" using le by linarith
  with p show ?thesis by simp
qed

section \<open>Chains built by mining\<close>

lemma next_block_ok:
  assumes "mined_from H J c now txs prf"
  shows "block_ok H J (next_block H J c now txs prf)"
proof -
  from assms have "pow_ok H (int (length c) + 1) now (genesis_or_last c)
      (get_merkle_root H J txs) (dumps_list J txs) prf"
    unfolding mined_from_def proof_of_work_def by (rule pow_loop_sound [THEN conjunct1])
  then show ?thesis
    by (simp add: block_ok_def compute_block_hash_def pow_ok_def next_block_def)
qed

lemma chain_add_transaction: "chain (snd (add_transaction s r a bc)) = chain bc"
  by (simp add: add_transaction_def get_previous_block_def Let_def)

lemma mine_block_chain:
  assumes "mine_block H J node_address now bc = Some (rsp, bc')"
  shows "chain bc' = chain bc \<or>
         (\<exists>prf txs. chain bc' = chain bc @ [next_block H J (chain bc) now txs prf] \<and>
                    mined_from H J (chain bc) now txs prf)"
  using assms
  by (auto simp: mine_block_def Let_def chain_add_transaction get_previous_block_def
        create_block_def next_block_def mined_from_def genesis_or_last_def
        split: if_splits option.splits)

lemma mine_block_bc_chain:
  assumes "mine_block_bc H J now bc = Some (rsp, bc')"
  shows "chain bc' = chain bc \<or>
         (\<exists>prf txs. chain bc' = chain bc @ [next_block H J (chain bc) now txs prf] \<and>
                    mined_from H J (chain bc) now txs prf)"
  using assms
  by (auto simp: mine_block_bc_def Let_def get_previous_block_def
        create_block_bc_def next_block_def mined_from_def genesis_or_last_def
        split: if_splits option.splits)

lemma append_mined_valid:
  assumes "is_chain_valid H J c" and "mined_from H J c now txs prf"
  shows "is_chain_valid H J (c @ [next_block H J c now txs prf])"
proof -
  have "previous_hash (next_block H J c now txs prf)
        = (if c = [] then ''0'' else block_hash (last c))"
    by (simp add: next_block_def genesis_or_last_def)
  with assms(1) next_block_ok [OF assms(2)] show ?thesis
    unfolding is_chain_valid_snoc by simp
qed

lemma grown_chain_valid:
  assumes "is_chain_valid H J c"
    and "c' = c \<or> (\<exists>prf txs. c' = c @ [next_block H J c now txs prf] \<and>
                               mined_from H J c now txs prf)"
  shows "is_chain_valid H J c'"
  using assms by (auto intro: append_mined_valid)

text \<open>The run that produces \<open>demo_node2\<close>: submit, mine, submit, mine.\<close>

lemma demo_submit_a:
  "snd (add_transaction ''A'' ''B'' 5 empty_node) = \<lparr>chain = [], mempool = [tx_a], nodes = {}\<rparr>"
  by (simp add: add_transaction_def get_previous_block_def Let_def empty_node_def tx_a_def)

lemma demo_mine1:
  "mine_block demo_hash demo_dumps ''n1'' ''t1'' \<lparr>chain = [], mempool = [tx_a], nodes = {}\<rparr>
   = Some (Mined demo_block1, demo_node1)"
  by (simp add: mine_eval merkle_eval demo_defs eval_defs)

lemma demo_submit_b:
  "snd (add_transaction ''B'' ''C'' 3 demo_node1)
   = \<lparr>chain = [demo_block1], mempool = [tx_reward, tx_b], nodes = {}\<rparr>"
  by (simp add: add_transaction_def get_previous_block_def Let_def demo_node1_def tx_b_def)

lemma demo_mine2:
  "mine_block demo_hash demo_dumps ''n1'' ''t2''
     \<lparr>chain = [demo_block1], mempool = [tx_reward, tx_b], nodes = {}\<rparr>
   = Some (Mined demo_block2, demo_node2)"
  by (simp add: mine_eval merkle_eval demo_defs eval_defs)

lemma pipeline_demo_node2: "pipeline demo_hash demo_dumps demo_node2"
proof -
  have "pipeline demo_hash demo_dumps empty_node"
    unfolding empty_node_def by (rule pipeline.init)
  then have "pipeline demo_hash demo_dumps (snd (add_transaction ''A'' ''B'' 5 empty_node))"
    by (rule pipeline.submit)
  then have "pipeline demo_hash demo_dumps demo_node1"
    unfolding demo_submit_a using demo_mine1 by (rule pipeline.mine)
  then have "pipeline demo_hash demo_dumps (snd (add_transaction ''B'' ''C'' 3 demo_node1))"
    by (rule pipeline.submit)
  then show ?thesis
    unfolding demo_submit_b using demo_mine2 by (rule pipeline.mine)
qed

text \<open>
  Claim C1. Every chain built only by the mining pipeline is accepted by
  \<open>is_chain_valid\<close>: starting from the empty chain, each step takes a batch of pending
  transactions, computes their Merkle root, takes \<open>''0''\<close> or the last block's hash as
  previous hash and the chain's length plus one as index, searches a nonce with
  \<open>proof_of_work\<close>, hashes the same fields and appends the block with \<open>create_block\<close>
  (lemmas \<open>mine_block_chain\<close> and \<open>mine_block_bc_chain\<close> show that the two handlers do
  exactly this).
\<close>

theorem pipeline_chain_valid:
  "pipeline H J bc \<Longrightarrow> is_chain_valid H J (chain bc)"
proof (induction rule: pipeline.induct)
  case init
  show ?case by (simp add: is_chain_valid_Nil)
next
  case (submit bc s r a)
  then show ?case by (simp add: chain_add_transaction)
next
  case (connect bc netloc)
  then show ?case by (simp add: add_node_def)
next
  case (mine bc node_address now rsp bc')
  from mine.IH mine_block_chain [OF mine.hyps(2)] show ?case
    by (rule grown_chain_valid)
next
  case (mine_bc bc now rsp bc')
  from mine_bc.IH mine_block_bc_chain [OF mine_bc.hyps(2)] show ?case
    by (rule grown_chain_valid)
qed

theorem pipeline_chain_valid_witness:
  "pipeline demo_hash demo_dumps demo_node2 \<and> chain demo_node2 = demo_chain \<and>
   is_chain_valid demo_hash demo_dumps demo_chain"
proof -
  have "chain demo_node2 = demo_chain" by (simp add: demo_node2_def)
  with pipeline_demo_node2 pipeline_chain_valid [OF pipeline_demo_node2] show ?thesis
    by simp
qed

section \<open>Block creation and the mempool\<close>

lemma list_remove_remove1: "list_remove x xs = remove1 x xs"
  by (induction xs) auto

lemma remove_mined_fold: "remove_mined txs pool = fold remove1 txs pool"
  by (induction txs arbitrary: pool) (simp_all add: list_remove_remove1 remove1_idem)

lemma mset_fold_remove1: "mset (fold remove1 txs pool) = mset pool - mset txs"
  by (induction txs arbitrary: pool) simp_all

lemma subseq_remove1: "subseq (remove1 x xs) xs"
  by (induction xs) auto

lemma subseq_fold_remove1: "subseq (fold remove1 txs pool) pool"
proof (induction txs arbitrary: pool)
  case Nil
  show ?case by simp
next
  case (Cons t ts)
  have "subseq (fold remove1 ts (remove1 t pool)) (remove1 t pool)" by (rule Cons.IH)
  also have "subseq (remove1 t pool) pool" by (rule subseq_remove1)
  finally show ?case by simp
qed

text \<open>
  Claim C7. \<open>create_block\<close> appends exactly one block, with index the chain's length plus
  one and the fields it was given, and leaves the blocks already in the chain as they are.
  The version of hadcoin_node_5001.py removes from the mempool, for each transaction of the
  batch in turn, the first pending transaction equal to it, if there is one (\<open>remove1\<close>);
  so the mempool loses, as a multiset, exactly the batch's transactions it holds, and what
  remains keeps its relative order. The version of blockchain.py leaves the mempool as it
  is. Neither touches the peer registry.
\<close>

theorem create_block_frame:
  "(create_block prf prev root txs ts bh bc = (blk, bc') \<longrightarrow>
      blk = \<lparr>index = int (length (chain bc)) + 1, timestamp = ts, nonce = prf,
              previous_hash = prev, merkle_root = root, transactions = txs, block_hash = bh\<rparr> \<and>
      chain bc' = chain bc @ [blk] \<and>
      mempool bc' = fold remove1 txs (mempool bc) \<and>
      mset (mempool bc') = mset (mempool bc) - mset txs \<and>
      subseq (mempool bc') (mempool bc) \<and>
      nodes bc' = nodes bc) \<and>
   (create_block_bc prf prev root txs ts bh bc = (blk, bc') \<longrightarrow>
      blk = \<lparr>index = int (length (chain bc)) + 1, timestamp = ts, nonce = prf,
              previous_hash = prev, merkle_root = root, transactions = txs, block_hash = bh\<rparr> \<and>
      chain bc' = chain bc @ [blk] \<and>
      mempool bc' = mempool bc \<and>
      nodes bc' = nodes bc)"
proof (intro conjI impI)
  assume c: "create_block prf prev root txs ts bh bc = (blk, bc')"
  then show "blk = \<lparr>index = int (length (chain bc)) + 1, timestamp = ts, nonce = prf,
       previous_hash = prev, merkle_root = root, transactions = txs, block_hash = bh\<rparr>"
    and "chain bc' = chain bc @ [blk]" and "nodes bc' = nodes bc"
    by (auto simp: create_block_def Let_def)
  from c show m: "mempool bc' = fold remove1 txs (mempool bc)"
    by (auto simp: create_block_def Let_def remove_mined_fold)
  show "mset (mempool bc') = mset (mempool bc) - mset txs"
    unfolding m by (rule mset_fold_remove1)
  show "subseq (mempool bc') (mempool bc)"
    unfolding m by (rule subseq_fold_remove1)
next
  assume "create_block_bc prf prev root txs ts bh bc = (blk, bc')"
  then show "blk = \<lparr>index = int (length (chain bc)) + 1, timestamp = ts, nonce = prf,
       previous_hash = prev, merkle_root = root, transactions = txs, block_hash = bh\<rparr>"
    and "chain bc' = chain bc @ [blk]" and "mempool bc' = mempool bc" and "nodes bc' = nodes bc"
    by (auto simp: create_block_bc_def Let_def)
qed

theorem create_block_frame_witness:
  "mempool (snd (create_block 2 ''0'' ''r'' [tx_a, tx_reward] ''t'' ''h''
       \<lparr>chain = [demo_block1], mempool = [tx_a, tx_b, tx_a], nodes = {}\<rparr>)) = [tx_b, tx_a] \<and>
   chain (snd (create_block 2 ''0'' ''r'' [tx_a, tx_reward] ''t'' ''h''
       \<lparr>chain = [demo_block1], mempool = [tx_a, tx_b, tx_a], nodes = {}\<rparr>))
     = [demo_block1, \<lparr>index = 2, timestamp = ''t'', nonce = 2, previous_hash = ''0'',
          merkle_root = ''r'', transactions = [tx_a, tx_reward], block_hash = ''h''\<rparr>] \<and>
   mempool (snd (create_block_bc 2 ''0'' ''r'' [tx_a, tx_reward] ''t'' ''h''
       \<lparr>chain = [demo_block1], mempool = [tx_a, tx_b, tx_a], nodes = {}\<rparr>)) = [tx_a, tx_b, tx_a]"
proof -
  define bc where "bc = \<lparr>chain = [demo_block1], mempool = [tx_a, tx_b, tx_a], nodes = {}\<rparr>"
  define r where "r = create_block 2 ''0'' ''r'' [tx_a, tx_reward] ''t'' ''h'' bc"
  define r' where "r' = create_block_bc 2 ''0'' ''r'' [tx_a, tx_reward] ''t'' ''h'' bc"
  have e: "create_block 2 ''0'' ''r'' [tx_a, tx_reward] ''t'' ''h'' bc = (fst r, snd r)"
    by (simp add: r_def)
  have e': "create_block_bc 2 ''0'' ''r'' [tx_a, tx_reward] ''t'' ''h'' bc = (fst r', snd r')"
    by (simp add: r'_def)
  have neq: "tx_a \<noteq> tx_b" "tx_a \<noteq> tx_reward" "tx_b \<noteq> tx_reward"
    by (simp_all add: tx_a_def tx_b_def tx_reward_def)
  from create_block_frame [of 2 "''0''" "''r''" "[tx_a, tx_reward]" "''t''" "''h''" bc "fst r" "snd r"] e
  have "mempool (snd r) = fold remove1 [tx_a, tx_reward] (mempool bc)"
    and "chain (snd r) = chain bc @ [fst r]"
    and "fst r = \<lparr>index = int (length (chain bc)) + 1, timestamp = ''t'', nonce = 2,
              previous_hash = ''0'', merkle_root = ''r'', transactions = [tx_a, tx_reward],
              block_hash = ''h''\<rparr>"
    by blast+
  moreover
  from create_block_frame [of 2 "''0''" "''r''" "[tx_a, tx_reward]" "''t''" "''h''" bc "fst r'" "snd r'"] e'
  have "mempool (snd r') = mempool bc"
    by blast
  ultimately show ?thesis
    unfolding r_def [symmetric] r'_def [symmetric] bc_def [symmetric]
    using neq by (simp add: bc_def)
qed

section \<open>Submitting a transaction\<close>

lemma add_transaction_eq:
  "add_transaction s r a bc =
     (if chain bc = [] then 1 else index (last (chain bc)) + 1,
      bc\<lparr>mempool := mempool bc @ [\<lparr>sender = s, receiver = r, amount = a\<rparr>]\<rparr>)"
  by (simp add: add_transaction_def get_previous_block_def Let_def)

lemma pipeline_last_index:
  "pipeline H J bc \<Longrightarrow> chain bc \<noteq> [] \<Longrightarrow> index (last (chain bc)) = int (length (chain bc))"
proof (induction rule: pipeline.induct)
  case init
  then show ?case by simp
next
  case (submit bc s r a)
  then show ?case by (simp add: chain_add_transaction)
next
  case (connect bc netloc)
  then show ?case by (simp add: add_node_def)
next
  case (mine bc node_address now rsp bc')
  from mine_block_chain [OF mine.hyps(2)] mine.IH mine.prems show ?case
    by (auto simp: next_block_def)
next
  case (mine_bc bc now rsp bc')
  from mine_block_bc_chain [OF mine_bc.hyps(2)] mine_bc.IH mine_bc.prems show ?case
    by (auto simp: next_block_def)
qed

text \<open>
  Claim C8, as amended. \<open>add_transaction\<close> appends the transaction to the end of the
  mempool and returns 1 when the chain is empty and the stored index of the last block
  plus one otherwise. On every ledger built by submitting, registering peers and mining
  this is the chain's length plus one.
\<close>

theorem add_transaction_result:
  "snd (add_transaction s r a bc)
     = bc\<lparr>mempool := mempool bc @ [\<lparr>sender = s, receiver = r, amount = a\<rparr>]\<rparr> \<and>
   fst (add_transaction s r a bc)
     = (if chain bc = [] then 1 else index (last (chain bc)) + 1) \<and>
   (pipeline H J bc \<longrightarrow> fst (add_transaction s r a bc) = int (length (chain bc)) + 1)"
  using pipeline_last_index [of H J bc] by (auto simp: add_transaction_eq)

theorem add_transaction_result_witness:
  "pipeline demo_hash demo_dumps demo_node2 \<and>
   fst (add_transaction ''A'' ''B'' 5 demo_node2) = 3"
proof -
  have "int (length (chain demo_node2)) + 1 = 3"
    by (simp add: demo_node2_def demo_chain_def)
  with add_transaction_result [of "''A''" "''B''" 5 demo_node2 demo_hash demo_dumps]
    pipeline_demo_node2
  show ?thesis by simp
qed

text \<open>
  The value returned is not the chain's length plus one on every ledger: \<open>is_chain_valid\<close>
  never compares a block's stored index with its position, so \<open>replace_chain\<close> can install
  a chain whose last block carries another index.
\<close>

theorem add_transaction_counterexample:
  "replace_chain demo_hash demo_dumps [Reply 200 1 [demo_block7]] empty_node = (True, demo_node7) \<and>
   fst (add_transaction ''A'' ''B'' 5 demo_node7) = 8 \<and>
   int (length (chain demo_node7)) + 1 = 2"
proof -
  have "replace_chain demo_hash demo_dumps [Reply 200 1 [demo_block7]] empty_node
        = (True, demo_node7)"
    by (simp add: replace_chain_def demo_block7_ok empty_node_def demo_node7_def)
  moreover have "fst (add_transaction ''A'' ''B'' 5 demo_node7) = 8"
    by (simp add: add_transaction_eq demo_node7_def demo_block7_def)
  moreover have "int (length (chain demo_node7)) + 1 = 2"
    by (simp add: demo_node7_def)
  ultimately show ?thesis by simp
qed

section \<open>Mining with too few pending transactions\<close>

text \<open>
  Claim C9. A \<open>mine_block\<close> handler called with fewer pending transactions than its
  minimum (one in hadcoin_node_5001.py, five in blockchain.py) answers with status 400 and
  leaves the ledger (chain, mempool and peer registry) exactly as it was.
\<close>

theorem mine_block_too_few:
  "(length (mempool bc) < 1 \<longrightarrow> mine_block H J node_address now bc = Some (Error400, bc)) \<and>
   (length (mempool bc) < 5 \<longrightarrow> mine_block_bc H J now bc = Some (Error400, bc))"
  by (simp add: mine_block_def mine_block_bc_def)

theorem mine_block_too_few_witness:
  "mine_block demo_hash demo_dumps ''n1'' ''t1'' empty_node = Some (Error400, empty_node) \<and>
   mine_block_bc demo_hash demo_dumps ''t3'' demo_node2 = Some (Error400, demo_node2)"
proof -
  have "length (mempool empty_node) < 1" by (simp add: empty_node_def)
  moreover have "length (mempool demo_node2) < 5" by (simp add: demo_node2_def)
  ultimately show ?thesis
    using mine_block_too_few [of empty_node demo_hash demo_dumps "''n1''" "''t1''"]
      mine_block_too_few [of demo_node2 demo_hash demo_dumps "''n1''" "''t3''"]
    by simp
qed

section \<open>Consensus by the longest valid chain\<close>

lemma scan_peers_snoc:
  "scan_peers H J (replies @ [r]) m lc =
     (case scan_peers H J replies m lc of
        (m', lc') \<Rightarrow>
          (case r of
             ConnectionError \<Rightarrow> (m', lc')
           | Reply status_code len chn \<Rightarrow>
               if status_code = 200 \<and> m' < len \<and> is_chain_valid H J chn
               then (len, Some chn) else (m', lc')))"
  by (induction H J replies m lc rule: scan_peers.induct)
     (auto split: peer_reply.splits)

lemma scan_peers_spec_scan:
  "scan_peers H J replies m lc = (m', lc') \<Longrightarrow>
     (m' = m \<and> lc' = lc \<and> spec_scan H J replies m w = w) \<or>
     (m < m' \<and> lc' = Some (spec_scan H J replies m w))"
proof (induction H J replies m lc arbitrary: w rule: scan_peers.induct)
  case (1 H J max_length longest_chain)
  then show ?case by simp
next
  case (2 H J rest max_length longest_chain)
  then show ?case by simp
next
  case (3 H J status_code len chn rest max_length longest_chain)
  show ?case
  proof (cases "status_code = 200 \<and> len > max_length \<and> is_chain_valid H J chn")
    case True
    with "3.prems" have s: "scan_peers H J rest len (Some chn) = (m', lc')" by simp
    from True have "status_code = 200" "max_length < len \<and> is_chain_valid H J chn" by simp_all
    from "3.IH"(1) [OF this s, of chn] True show ?thesis by auto
  next
    case False
    with "3.prems" have s: "scan_peers H J rest max_length longest_chain = (m', lc')"
      by (auto split: if_splits)
    show ?thesis
    proof (cases "status_code = 200")
      case True
      with False have "\<not> (max_length < len \<and> is_chain_valid H J chn)" by simp
      from "3.IH"(2) [OF True this s, of w] False show ?thesis by auto
    next
      case False
      from "3.IH"(3) [OF False s, of w] False show ?thesis by auto
    qed
  qed
qed

text \<open>
  Claim C5, as amended. \<open>replace_chain\<close> scans every peer in turn. The last peer scanned
  becomes the running winner exactly when it answered with status 200, its reported length
  is strictly greater than the running maximum left by the peers before it, and
  \<open>is_chain_valid\<close> accepts its chain; otherwise winner and maximum stay as they were (so
  an equal length never replaces). After the scan, if some peer became the winner (the
  maximum grew) and the final winner is not the empty list, the local chain is replaced by
  the winner and true is returned; otherwise the ledger is left untouched and false is
  returned.
\<close>

theorem replace_chain_outcome:
  "scan_peers H J (replies @ [r]) m lc =
     (case scan_peers H J replies m lc of
        (m', lc') \<Rightarrow>
          (case r of
             ConnectionError \<Rightarrow> (m', lc')
           | Reply status_code len chn \<Rightarrow>
               if status_code = 200 \<and> m' < len \<and> is_chain_valid H J chn
               then (len, Some chn) else (m', lc'))) \<and>
   replace_chain H J replies bc =
     (if int (length (chain bc)) < fst (scan_peers H J replies (int (length (chain bc))) None) \<and>
         spec_scan H J replies (int (length (chain bc))) (chain bc) \<noteq> []
      then (True, bc\<lparr>chain := spec_scan H J replies (int (length (chain bc))) (chain bc)\<rparr>)
      else (False, bc))"
proof
  show "scan_peers H J (replies @ [r]) m lc =
     (case scan_peers H J replies m lc of
        (m', lc') \<Rightarrow>
          (case r of
             ConnectionError \<Rightarrow> (m', lc')
           | Reply status_code len chn \<Rightarrow>
               if status_code = 200 \<and> m' < len \<and> is_chain_valid H J chn
               then (len, Some chn) else (m', lc')))"
    by (rule scan_peers_snoc)
next
  define m where "m = int (length (chain bc))"
  obtain m' lc' where s: "scan_peers H J replies m None = (m', lc')"
    by (cases "scan_peers H J replies m None")
  from scan_peers_spec_scan [OF s, of "chain bc"]
  have "replace_chain H J replies bc =
     (if m < fst (scan_peers H J replies m None) \<and> spec_scan H J replies m (chain bc) \<noteq> []
      then (True, bc\<lparr>chain := spec_scan H J replies m (chain bc)\<rparr>)
      else (False, bc))"
    by (auto simp: replace_chain_def s m_def [symmetric])
  then show "replace_chain H J replies bc =
     (if int (length (chain bc)) < fst (scan_peers H J replies (int (length (chain bc))) None) \<and>
         spec_scan H J replies (int (length (chain bc))) (chain bc) \<noteq> []
      then (True, bc\<lparr>chain := spec_scan H J replies (int (length (chain bc))) (chain bc)\<rparr>)
      else (False, bc))"
    by (simp add: m_def)
qed

theorem replace_chain_outcome_witness:
  "replace_chain demo_hash demo_dumps
     [ConnectionError, Reply 404 9 demo_chain, Reply 200 2 demo_chain, Reply 200 2 [demo_block7],
      Reply 200 5 [demo_block2]] demo_node1
   = (True, demo_node1\<lparr>chain := demo_chain\<rparr>)"
proof -
  have "length (chain demo_node1) = 1" "demo_chain \<noteq> []"
    by (simp_all add: demo_node1_def demo_chain_def)
  then show ?thesis
    using replace_chain_outcome [of demo_hash demo_dumps
        "[ConnectionError, Reply 404 9 demo_chain, Reply 200 2 demo_chain,
          Reply 200 2 [demo_block7], Reply 200 5 [demo_block2]]" _ _ _ demo_node1]
    by (simp add: demo_chain_ok demo_block2_alone)
qed

text \<open>
  The specification's final test (replace when the winner differs from the local chain)
  is not the source's: a peer that reports length 2 next to an empty chain wins the scan,
  and the source then keeps the local chain and returns false.
\<close>

theorem replace_chain_counterexample:
  "spec_resolve demo_hash demo_dumps [Reply 200 2 []] demo_node1
     = (True, demo_node1\<lparr>chain := []\<rparr>) \<and>
   replace_chain demo_hash demo_dumps [Reply 200 2 []] demo_node1 = (False, demo_node1)"
  by (simp add: spec_resolve_def replace_chain_def is_chain_valid_Nil demo_node1_def)

text \<open>
  Claim C10. \<open>replace_chain\<close> never installs an empty chain: when it returns true the new
  local chain is not empty; when it returns false the ledger is unchanged; and when the
  candidate that survived the scan is the empty list (a peer reporting any length next to
  an empty, vacuously valid chain) it returns false and leaves the ledger unchanged.
\<close>

theorem replace_chain_never_empty:
  "(fst (replace_chain H J replies bc) \<longrightarrow>
      chain (snd (replace_chain H J replies bc)) \<noteq> [] \<and>
      mempool (snd (replace_chain H J replies bc)) = mempool bc \<and>
      nodes (snd (replace_chain H J replies bc)) = nodes bc) \<and>
   (\<not> fst (replace_chain H J replies bc) \<longrightarrow> snd (replace_chain H J replies bc) = bc) \<and>
   (snd (scan_peers H J replies (int (length (chain bc))) None) = Some [] \<longrightarrow>
      replace_chain H J replies bc = (False, bc)) \<and>
   replace_chain H J [Reply 200 len []] bc = (False, bc)"
  by (auto simp: replace_chain_def is_chain_valid_Nil split: option.splits)

theorem replace_chain_never_empty_witness:
  "replace_chain demo_hash demo_dumps [Reply 200 5 [], Reply 200 5 demo_chain] demo_node1
     = (False, demo_node1) \<and>
   fst (replace_chain demo_hash demo_dumps [Reply 200 2 demo_chain] demo_node1) \<and>
   chain (snd (replace_chain demo_hash demo_dumps [Reply 200 2 demo_chain] demo_node1)) \<noteq> []"
proof -
  have "snd (scan_peers demo_hash demo_dumps [Reply 200 5 [], Reply 200 5 demo_chain]
               (int (length (chain demo_node1))) None) = Some []"
    by (simp add: is_chain_valid_Nil demo_node1_def)
  with replace_chain_never_empty
    [of demo_hash demo_dumps "[Reply 200 5 [], Reply 200 5 demo_chain]" demo_node1]
  have a: "replace_chain demo_hash demo_dumps [Reply 200 5 [], Reply 200 5 demo_chain] demo_node1
     = (False, demo_node1)"
    by blast
  have "demo_chain \<noteq> []" by (simp add: demo_chain_def)
  then have "fst (replace_chain demo_hash demo_dumps [Reply 200 2 demo_chain] demo_node1)"
    by (simp add: replace_chain_def demo_chain_ok demo_node1_def)
  with replace_chain_never_empty [of demo_hash demo_dumps "[Reply 200 2 demo_chain]" demo_node1]
  have "fst (replace_chain demo_hash demo_dumps [Reply 200 2 demo_chain] demo_node1) \<and>
     chain (snd (replace_chain demo_hash demo_dumps [Reply 200 2 demo_chain] demo_node1)) \<noteq> []"
    by blast
  with a show ?thesis by simp
qed

section \<open>Tampering with an accepted chain\<close>

text \<open>
  What the validator detects when one field of one block of an accepted chain is changed.
  Three fields are protected by comparisons that do not go through the digest; the others
  are protected only through it.
\<close>

lemma is_chain_valid_block_ok:
  assumes "is_chain_valid H J c" and "i < length c"
  shows "block_ok H J (c ! i)"
proof (cases c)
  case Nil
  with assms(2) show ?thesis by simp
next
  case (Cons b bs)
  with assms show ?thesis
    unfolding Cons is_chain_valid_nth by blast
qed

lemma is_chain_valid_link:
  assumes "is_chain_valid H J c" and "i < length c"
  shows "previous_hash (c ! i) = (if i = 0 then ''0'' else block_hash (c ! (i - 1)))"
proof (cases c)
  case Nil
  with assms(2) show ?thesis by simp
next
  case (Cons b bs)
  from assms(1) have g: "previous_hash b = ''0''"
    and l: "\<forall>k. 1 \<le> k \<and> k < length (b # bs) \<longrightarrow>
          previous_hash ((b # bs) ! k) = block_hash ((b # bs) ! (k - 1))"
    unfolding Cons is_chain_valid_nth by blast+
  show ?thesis
  proof (cases "i = 0")
    case True
    with g Cons show ?thesis by simp
  next
    case False
    with assms(2) l [rule_format, of i] Cons show ?thesis by simp
  qed
qed

text \<open>A mutated stored hash is always detected: the re-derived hash does not read it.\<close>

lemma tamper_block_hash:
  assumes "is_chain_valid H J c" and "i < length c" and "v \<noteq> block_hash (c ! i)"
  shows "\<not> is_chain_valid H J (c[i := (c ! i)\<lparr>block_hash := v\<rparr>])"
proof
  assume "is_chain_valid H J (c[i := (c ! i)\<lparr>block_hash := v\<rparr>])"
  with assms(2) have "block_ok H J ((c ! i)\<lparr>block_hash := v\<rparr>)"
    using is_chain_valid_block_ok [of H J "c[i := (c ! i)\<lparr>block_hash := v\<rparr>]" i] by simp
  moreover from assms(1,2) have "block_ok H J (c ! i)" by (rule is_chain_valid_block_ok)
  ultimately have "v = block_hash (c ! i)"
    by (simp add: block_ok_def compute_block_hash_def)
  with assms(3) show False by simp
qed

text \<open>A mutated stored Merkle root is always detected by the recomputation.\<close>

lemma tamper_merkle_root:
  assumes "is_chain_valid H J c" and "i < length c" and "v \<noteq> merkle_root (c ! i)"
  shows "\<not> is_chain_valid H J (c[i := (c ! i)\<lparr>merkle_root := v\<rparr>])"
proof
  assume "is_chain_valid H J (c[i := (c ! i)\<lparr>merkle_root := v\<rparr>])"
  with assms(2) have "block_ok H J ((c ! i)\<lparr>merkle_root := v\<rparr>)"
    using is_chain_valid_block_ok [of H J "c[i := (c ! i)\<lparr>merkle_root := v\<rparr>]" i] by simp
  moreover from assms(1,2) have "block_ok H J (c ! i)" by (rule is_chain_valid_block_ok)
  ultimately have "v = merkle_root (c ! i)"
    by (simp add: block_ok_def)
  with assms(3) show False by simp
qed

text \<open>A mutated previous hash is always detected by the link check.\<close>

lemma tamper_previous_hash:
  assumes "is_chain_valid H J c" and "i < length c" and "v \<noteq> previous_hash (c ! i)"
  shows "\<not> is_chain_valid H J (c[i := (c ! i)\<lparr>previous_hash := v\<rparr>])"
proof
  assume v': "is_chain_valid H J (c[i := (c ! i)\<lparr>previous_hash := v\<rparr>])"
  from assms(2) have "i < length (c[i := (c ! i)\<lparr>previous_hash := v\<rparr>])" by simp
  from is_chain_valid_link [OF v' this] assms(2)
  have "v = (if i = 0 then ''0'' else block_hash (c ! (i - 1)))"
    by (cases "i = 0") simp_all
  also from assms(1,2) have "\<dots> = previous_hash (c ! i)" by (rule is_chain_valid_link [symmetric])
  finally show False using assms(3) by simp
qed

text \<open>
  A mutation of another field that keeps the stored hash is detected exactly when it
  changes the re-derived hash of the block.
\<close>

lemma tamper_rehash:
  assumes "is_chain_valid H J c" and "i < length c"
    and "block_hash b' = block_hash (c ! i)"
    and "compute_block_hash H J b' \<noteq> compute_block_hash H J (c ! i)"
  shows "\<not> is_chain_valid H J (c[i := b'])"
proof
  assume "is_chain_valid H J (c[i := b'])"
  with assms(2) have "block_ok H J b'"
    using is_chain_valid_block_ok [of H J "c[i := b']" i] by simp
  moreover from assms(1,2) have "block_ok H J (c ! i)" by (rule is_chain_valid_block_ok)
  ultimately show False using assms(3,4) by (simp add: block_ok_def)
qed

text \<open>
  A mutation of the transactions that keeps the stored Merkle root is detected whenever it
  changes the recomputed root.
\<close>

lemma tamper_root:
  assumes "is_chain_valid H J c" and "i < length c"
    and "merkle_root b' = merkle_root (c ! i)"
    and "get_merkle_root H J (transactions b') \<noteq> get_merkle_root H J (transactions (c ! i))"
  shows "\<not> is_chain_valid H J (c[i := b'])"
proof
  assume "is_chain_valid H J (c[i := b'])"
  with assms(2) have "block_ok H J b'"
    using is_chain_valid_block_ok [of H J "c[i := b']" i] by simp
  moreover from assms(1,2) have "block_ok H J (c ! i)" by (rule is_chain_valid_block_ok)
  ultimately show False using assms(3,4) by (simp add: block_ok_def)
qed

text \<open>
  For a digest with collisions the condition cannot be dropped: under the constant digest
  a one-block chain is accepted before and after its nonce is changed.
\<close>

lemma tamper_undetected_when_digest_collides:
  "is_chain_valid zero_hash demo_dumps [demo_block1\<lparr>block_hash := ''000''\<rparr>] \<and>
   is_chain_valid zero_hash demo_dumps [demo_block1\<lparr>block_hash := ''000'', nonce := 3\<rparr>]"
proof -
  have "get_merkle_root zero_hash demo_dumps [tx_a] = ''A>B:5''"
    by (simp add: merkle_eval demo_defs eval_defs)
  then show ?thesis
    by (simp add: is_chain_valid_Cons block_ok_def compute_block_hash_def zero_hash_def
        demo_block1_def)
qed

text \<open>The decimal rendering of an integer determines the integer.\<close>

lemma digits_below_10:
  "\<forall>d<10. digit_val (digit_char d) = d \<and> digit_char d \<noteq> CHR ''-''"
  unfolding digit_char_def digit_val_def by (simp add: eval_nat_numeral All_less_Suc)

lemma digit_val_digit_char: "d < 10 \<Longrightarrow> digit_val (digit_char d) = d"
  using digits_below_10 by blast

lemma digit_char_not_minus: "d < 10 \<Longrightarrow> digit_char d \<noteq> CHR ''-''"
  using digits_below_10 by blast

lemma str_val_str_nat: "str_val (str_nat n) = n"
proof (induction n rule: str_nat.induct)
  case (1 n)
  show ?case
  proof (cases "n < 10")
    case True
    then show ?thesis
      by (subst str_nat.simps) (simp add: str_val_def digit_val_digit_char)
  next
    case False
    then have "str_val (str_nat n) = 10 * str_val (str_nat (n div 10)) + digit_val (digit_char (n mod 10))"
      by (subst str_nat.simps) (simp add: str_val_def)
    also have "\<dots> = 10 * (n div 10) + n mod 10"
      using False by (simp add: "1.IH" digit_val_digit_char)
    finally show ?thesis by simp
  qed
qed

lemma str_nat_inj: "str_nat m = str_nat n \<Longrightarrow> m = n"
  by (metis str_val_str_nat)

lemma str_nat_not_minus: "str_nat n \<noteq> CHR ''-'' # s"
proof (induction n arbitrary: s rule: str_nat.induct)
  case (1 n)
  show ?case
  proof (cases "n < 10")
    case True
    then have "str_nat n = [digit_char n]" by (subst str_nat.simps) simp
    with True show ?thesis by (simp add: digit_char_not_minus)
  next
    case False
    then have e: "str_nat n = str_nat (n div 10) @ [digit_char (n mod 10)]"
      by (subst str_nat.simps) simp
    show ?thesis
    proof (cases "str_nat (n div 10)")
      case Nil
      with e show ?thesis by (simp add: digit_char_not_minus)
    next
      case (Cons x xs)
      with "1.IH" [OF False, of xs] have "x \<noteq> CHR ''-''" by simp
      with e Cons show ?thesis by simp
    qed
  qed
qed

lemma str_int_inj: "str_int a = str_int b \<Longrightarrow> a = b"
proof -
  assume e: "str_int a = str_int b"
  show ?thesis
  proof (cases "a < 0")
    case an: True
    show ?thesis
    proof (cases "b < 0")
      case True
      with an e have "str_nat (nat (- a)) = str_nat (nat (- b))" by (simp add: str_int_def)
      then have "nat (- a) = nat (- b)" by (rule str_nat_inj)
      with an True show ?thesis by simp
    next
      case False
      with an e have "str_nat (nat b) = CHR ''-'' # str_nat (nat (- a))" by (simp add: str_int_def)
      with str_nat_not_minus show ?thesis by blast
    qed
  next
    case ap: False
    show ?thesis
    proof (cases "b < 0")
      case True
      with ap e have "str_nat (nat a) = CHR ''-'' # str_nat (nat (- b))" by (simp add: str_int_def)
      with str_nat_not_minus show ?thesis by blast
    next
      case False
      with ap e have "str_nat (nat a) = str_nat (nat b)" by (simp add: str_int_def)
      then have "nat a = nat b" by (rule str_nat_inj)
      with ap False show ?thesis by simp
    qed
  qed
qed

text \<open>Replacing one item of a joined list by a different one changes the joined string.\<close>

lemma join_update_neq:
  "k < length ys \<Longrightarrow> y' \<noteq> ys ! k \<Longrightarrow> join sep (ys[k := y']) \<noteq> join sep ys"
proof (induction sep ys arbitrary: k rule: join.induct)
  case (1 sep)
  then show ?case by simp
next
  case (2 sep x)
  then show ?case by simp
next
  case (3 sep x y ys)
  show ?case
  proof (cases k)
    case 0
    with "3.prems" show ?thesis by simp
  next
    case (Suc j)
    with "3.prems" have "j < length (y # ys)" "y' \<noteq> (y # ys) ! j" by simp_all
    then have "join sep ((y # ys)[j := y']) \<noteq> join sep (y # ys)" by (rule "3.IH")
    moreover obtain z zs where "(y # ys)[j := y'] = z # zs"
      by (cases j) auto
    ultimately show ?thesis using Suc by simp
  qed
qed

lemma dumps_list_update_neq:
  assumes "inj J" and "k < length txs" and "t \<noteq> txs ! k"
  shows "dumps_list J (txs[k := t]) \<noteq> dumps_list J txs"
proof -
  from assms(1,3) have "J t \<noteq> J (txs ! k)" by (auto dest: injD)
  with assms(2) have "join '', '' ((map J txs)[k := J t]) \<noteq> join '', '' (map J txs)"
    by (intro join_update_neq) simp_all
  then show ?thesis by (simp add: dumps_list_def map_update)
qed

lemma compute_block_hash_preimage: "compute_block_hash H J b = H (block_preimage J b)"
  by (simp add: compute_block_hash_def block_preimage_def)

text \<open>
  Changing the nonce, the timestamp or a transaction changes the string that is hashed:
  the concatenation is unambiguous for such a change.
\<close>

lemma preimage_changes:
  assumes "inj J" and "alters m b"
    and "m = SetNonce n \<or> m = SetTimestamp v \<or> m = SetTransaction k t"
  shows "block_preimage J (mutate m b) \<noteq> block_preimage J b"
proof -
  consider "m = SetNonce n" | "m = SetTimestamp v" | "m = SetTransaction k t"
    using assms(3) by blast
  then show ?thesis
  proof cases
    case 1
    with assms(2) have "str_int n \<noteq> str_int (nonce b)" by (auto dest: str_int_inj)
    with 1 show ?thesis by (simp add: block_preimage_def)
  next
    case 2
    with assms(2) show ?thesis by (simp add: block_preimage_def)
  next
    case 3
    with assms(1,2) have "dumps_list J ((transactions b)[k := t]) \<noteq> dumps_list J (transactions b)"
      by (simp add: dumps_list_update_neq)
    with 3 show ?thesis by (simp add: block_preimage_def)
  qed
qed

text \<open>
  Every single-field mutation of a block of an accepted chain is detected, provided the
  digest does not take the same value on the block's hashed string before and after.
\<close>

lemma tamper_detected:
  assumes valid: "is_chain_valid H J c" and i: "i < length c" and alt: "alters m (c ! i)"
    and J: "inj J"
    and nocoll: "H (block_preimage J (mutate m (c ! i))) = H (block_preimage J (c ! i)) \<Longrightarrow>
                 block_preimage J (mutate m (c ! i)) = block_preimage J (c ! i)"
  shows "\<not> is_chain_valid H J (c[i := mutate m (c ! i)])"
proof (cases m)
  case (SetBlockHash v)
  with valid i alt show ?thesis by (simp add: tamper_block_hash)
next
  case (SetMerkleRoot v)
  with valid i alt show ?thesis by (simp add: tamper_merkle_root)
next
  case (SetPreviousHash v)
  with valid i alt show ?thesis by (simp add: tamper_previous_hash)
next
  case (SetNonce n)
  with J alt have "block_preimage J (mutate m (c ! i)) \<noteq> block_preimage J (c ! i)"
    by (intro preimage_changes) auto
  with nocoll have "compute_block_hash H J (mutate m (c ! i)) \<noteq> compute_block_hash H J (c ! i)"
    by (auto simp: compute_block_hash_preimage)
  moreover have "block_hash (mutate m (c ! i)) = block_hash (c ! i)" using SetNonce by simp
  ultimately show ?thesis using valid i by (intro tamper_rehash)
next
  case (SetTimestamp v)
  with J alt have "block_preimage J (mutate m (c ! i)) \<noteq> block_preimage J (c ! i)"
    by (intro preimage_changes) auto
  with nocoll have "compute_block_hash H J (mutate m (c ! i)) \<noteq> compute_block_hash H J (c ! i)"
    by (auto simp: compute_block_hash_preimage)
  moreover have "block_hash (mutate m (c ! i)) = block_hash (c ! i)" using SetTimestamp by simp
  ultimately show ?thesis using valid i by (intro tamper_rehash)
next
  case (SetTransaction k t)
  with J alt have "block_preimage J (mutate m (c ! i)) \<noteq> block_preimage J (c ! i)"
    by (intro preimage_changes) auto
  with nocoll have "compute_block_hash H J (mutate m (c ! i)) \<noteq> compute_block_hash H J (c ! i)"
    by (auto simp: compute_block_hash_preimage)
  moreover have "block_hash (mutate m (c ! i)) = block_hash (c ! i)" using SetTransaction by simp
  ultimately show ?thesis using valid i by (intro tamper_rehash)
qed

end
